theory Spec2Isabelle
  imports
    Main
    "HOL-Library.Multiset"
    "HOL-Library.Char_ord"
    "HOL-Library.List_Lexorder"
    "HOL-Library.Product_Lexorder"
begin

section \<open>Python strings\<close>

text \<open>
  A Python \<open>str\<close> is a sequence of code points and \<open>len\<close> counts code points. The model
  is \<^typ>\<open>string\<close>, read as the code points U+0000 to U+00FF (one \<^typ>\<open>char\<close> per code
  point, not a UTF-8 byte): the Latin-1 block, which holds every character the program
  tests for (\<open>a-z\<close>, \<open>/\<close>, \<open>@\<close>, \<open>*\<close>, the line breaks) and the umlauts of its tests.
  Strings compare as Python compares them, code point by code point, a proper prefix
  first (\<open>Char_ord\<close> and \<open>List_Lexorder\<close>).
\<close>

definition cp :: "char \<Rightarrow> nat" where
  "cp c = of_char c"

text \<open>\<open>str.isspace\<close> on one code point below 256.\<close>

definition isspace :: "char \<Rightarrow> bool" where
  "isspace c = (let n = cp c in (9 \<le> n \<and> n \<le> 13) \<or> (28 \<le> n \<and> n \<le> 32) \<or> n = 133 \<or> n = 160)"

text \<open>\<open>str.isdigit\<close> on one code point below 256: \<open>0-9\<close> and the superscripts 1, 2, 3.\<close>

definition isdigit_char :: "char \<Rightarrow> bool" where
  "isdigit_char c = (let n = cp c in (48 \<le> n \<and> n \<le> 57) \<or> n = 178 \<or> n = 179 \<or> n = 185)"

definition isdigit :: "string \<Rightarrow> bool" where
  "isdigit s = (s \<noteq> [] \<and> list_all isdigit_char s)"

text \<open>
  \<open>str.lower\<close> on one code point below 256: \<open>A-Z\<close> and the Latin-1 capitals
  (U+00C0 to U+00DE without the multiplication sign U+00D7) move up by 32.
\<close>

definition lower_char :: "char \<Rightarrow> char" where
  "lower_char c =
     (let n = cp c in
      if (65 \<le> n \<and> n \<le> 90) \<or> (192 \<le> n \<and> n \<le> 214) \<or> (216 \<le> n \<and> n \<le> 222)
      then char_of (n + 32) else c)"

definition lower :: "string \<Rightarrow> string" where
  "lower s = map lower_char s"

text \<open>\<open>str.strip()\<close>: leading and trailing whitespace removed.\<close>

definition lstrip :: "string \<Rightarrow> string" where
  "lstrip s = dropWhile isspace s"

definition rstrip :: "string \<Rightarrow> string" where
  "rstrip s = rev (dropWhile isspace (rev s))"

definition strip :: "string \<Rightarrow> string" where
  "strip s = rstrip (lstrip s)"

text \<open>\<open>s.startswith(p)\<close>.\<close>

definition startswith :: "string \<Rightarrow> string \<Rightarrow> bool" where
  "startswith s p = (take (length p) s = p)"

text \<open>\<open>p in s\<close> on strings: \<open>p\<close> occurs in \<open>s\<close> as a contiguous substring.\<close>

fun str_in :: "string \<Rightarrow> string \<Rightarrow> bool" where
  "str_in p [] = (p = [])"
| "str_in p (c # cs) = (startswith (c # cs) p \<or> str_in p cs)"

text \<open>\<open>line.split("/", 1)[0]\<close>: the part before the first \<open>/\<close>, the whole line without one.\<close>

definition split_slash_head :: "string \<Rightarrow> string" where
  "split_slash_head line = takeWhile (\<lambda>c. c \<noteq> CHR ''/'') line"

text \<open>
  \<open>str.splitlines()\<close> within Latin-1: a line ends at \<open>\n\<close>, \<open>\r\<close>, \<open>\r\n\<close>, \<open>\v\<close>, \<open>\f\<close>,
  \<open>\x1c\<close>, \<open>\x1d\<close>, \<open>\x1e\<close> or \<open>\x85\<close>; the breaks are dropped and a final break opens no
  empty last line. The first argument is the current line, reversed.
\<close>

definition is_linebreak :: "char \<Rightarrow> bool" where
  "is_linebreak c = (let n = cp c in (10 \<le> n \<and> n \<le> 13) \<or> (28 \<le> n \<and> n \<le> 30) \<or> n = 133)"

fun splitlines_from :: "string \<Rightarrow> string \<Rightarrow> string list" where
  "splitlines_from acc [] = (if acc = [] then [] else [rev acc])"
| "splitlines_from acc (c # cs) =
     (if cp c = 13 then
        (case cs of
           [] \<Rightarrow> [rev acc]
         | d # ds \<Rightarrow> if cp d = 10 then rev acc # splitlines_from [] ds
                    else rev acc # splitlines_from [] (d # ds))
      else if is_linebreak c then rev acc # splitlines_from [] cs
      else splitlines_from (c # acc) cs)"

definition splitlines :: "string \<Rightarrow> string list" where
  "splitlines s = splitlines_from [] s"

text \<open>\<open>ASCII_RE = re.compile(r"^[a-z]+$")\<close> under \<open>fullmatch\<close>: one or more of \<open>a-z\<close>, nothing else.\<close>

definition is_az :: "char \<Rightarrow> bool" where
  "is_az c = (97 \<le> cp c \<and> cp c \<le> 122)"

definition ASCII_RE_fullmatch :: "string \<Rightarrow> bool" where
  "ASCII_RE_fullmatch w = (w \<noteq> [] \<and> list_all is_az w)"

text \<open>
  \<open>collections.Counter\<close> of a string: how often each character occurs. Two counters are
  equal when every character has the same count in both, so the counter is the multiset
  of the characters.
\<close>

definition Counter :: "string \<Rightarrow> char multiset" where
  "Counter w = mset w"

text \<open>
  \<open>sorted(S, key=k)\<close> of a Python set \<open>S\<close>: a stable sort of the set's elements in the
  order the set iterates them. The model iterates in ascending order; with an injective
  key, as everywhere in this program, the result does not depend on that order
  (lemma \<open>py_sorted_key_any_order\<close>).
\<close>

definition py_sorted_key :: "('a::linorder \<Rightarrow> 'k::linorder) \<Rightarrow> 'a set \<Rightarrow> 'a list" where
  "py_sorted_key k S = sort_key k (sorted_list_of_set S)"

definition py_sorted :: "'a::linorder set \<Rightarrow> 'a list" where
  "py_sorted S = sorted_list_of_set S"

section \<open>solver/solver.py\<close>

datatype error = ValueError string | SystemExit string

record result =
  valid_words :: "string list"
  pangrams_7_exact :: "string list"
  longest_words :: "string list"
  max_len :: nat

text \<open>
  \<open>load_base_words\<close>, from the lines of the decoded file. \<open>first\<close> is \<open>f.readline()\<close>
  (the empty string at the end of an empty file), \<open>rest\<close> is \<open>f.readlines()\<close>.
\<close>

definition all_lines :: "string list \<Rightarrow> string list" where
  "all_lines file_lines =
     (let first = (case file_lines of [] \<Rightarrow> [] | l # _ \<Rightarrow> l);
          rest = tl file_lines
      in if isdigit (strip first) then rest else first # rest)"

text \<open>The loop over \<open>lines\<close>, adding to the set \<open>words\<close>.\<close>

fun add_words :: "string list \<Rightarrow> string set \<Rightarrow> string set" where
  "add_words [] words = words"
| "add_words (line # lines) words =
     (let w = lower (strip (split_slash_head line))
      in if ASCII_RE_fullmatch w then add_words lines (insert w words)
         else add_words lines words)"

definition load_base_words :: "string list \<Rightarrow> string list" where
  "load_base_words file_lines = py_sorted (add_words (all_lines file_lines) {})"

text \<open>The sort key of \<open>valid\<close>: \<open>lambda x: (-len(x), x)\<close>.\<close>

definition valid_key :: "string \<Rightarrow> int \<times> string" where
  "valid_key x = (- int (length x), x)"

text \<open>
  The loop of \<open>solve_candidates\<close> over the candidates, appending to the lists \<open>valid\<close>
  and \<open>pangrams\<close>.
\<close>

fun scan_candidates ::
  "string \<Rightarrow> char set \<Rightarrow> char multiset \<Rightarrow> string list \<Rightarrow> string list \<times> string list
     \<Rightarrow> string list \<times> string list" where
  "scan_candidates mandatory allowed_set allowed_counter [] (valid, pangrams) = (valid, pangrams)"
| "scan_candidates mandatory allowed_set allowed_counter (w0 # ws) (valid, pangrams) =
     (let w = lower (strip w0) in
      if w = [] then scan_candidates mandatory allowed_set allowed_counter ws (valid, pangrams)
      else if \<not> ASCII_RE_fullmatch w then
        scan_candidates mandatory allowed_set allowed_counter ws (valid, pangrams)
      else if \<not> str_in mandatory w then
        scan_candidates mandatory allowed_set allowed_counter ws (valid, pangrams)
      else if set w - allowed_set \<noteq> {} then
        scan_candidates mandatory allowed_set allowed_counter ws (valid, pangrams)
      else
        scan_candidates mandatory allowed_set allowed_counter ws
          (valid @ [w],
           if length w = 7 \<and> Counter w = allowed_counter then pangrams @ [w] else pangrams))"

definition solve_candidates :: "string \<Rightarrow> string \<Rightarrow> string list \<Rightarrow> error + result" where
  "solve_candidates allowed0 mandatory0 candidates =
     (let allowed = strip (lower allowed0);
          mandatory = strip (lower mandatory0)
      in
      if length allowed \<noteq> 7 \<or> card (set allowed) \<noteq> 7 \<or> \<not> ASCII_RE_fullmatch allowed then
        Inl (ValueError ''allowed must be exactly 7 distinct letters (a-z)'')
      else if length mandatory \<noteq> 1 \<or> \<not> ASCII_RE_fullmatch mandatory then
        Inl (ValueError ''mandatory must be exactly one a-z letter'')
      else if \<not> str_in mandatory allowed then
        Inl (ValueError ''mandatory letter must be among allowed letters'')
      else
        let allowed_set = set allowed;
            allowed_counter = Counter allowed;
            (valid0, pangrams0) =
               scan_candidates mandatory allowed_set allowed_counter candidates ([], []);
            valid = py_sorted_key valid_key (set valid0);
            pangrams = py_sorted (set pangrams0);
            max_len = (case valid of [] \<Rightarrow> 0 | v # _ \<Rightarrow> length v);
            longest = filter (\<lambda>w. length w = max_len) valid
        in Inr \<lparr> valid_words = valid, pangrams_7_exact = pangrams,
                 longest_words = longest, max_len = max_len \<rparr>)"

section \<open>main.py\<close>

text \<open>
  \<open>looks_reasonable\<close>. \<open>re.search(r"(.)\1\1", word)\<close> finds a character that is followed
  by itself twice; the dot of a Python pattern matches every character but the newline.
\<close>

fun triple_repeat :: "string \<Rightarrow> bool" where
  "triple_repeat (a # b # c # cs) =
     ((a \<noteq> CHR 0x0A \<and> b = a \<and> c = a) \<or> triple_repeat (b # c # cs))"
| "triple_repeat _ = False"

definition looks_reasonable :: "string \<Rightarrow> int \<Rightarrow> bool" where
  "looks_reasonable word min_len =
     (if int (length word) < min_len then False
      else if triple_repeat word then False
      else if length word \<le> 8 \<and> length word mod 2 = 0 then
        (let half = length word div 2
         in if take half word = drop half word then False else True)
      else True)"

text \<open>\<open>"\n".join(words)\<close>.\<close>

fun join_newline :: "string list \<Rightarrow> string" where
  "join_newline [] = []"
| "join_newline [w] = w"
| "join_newline (w # ws) = w @ [CHR 0x0A] @ join_newline ws"

text \<open>
  \<open>hunspell_filter_valid\<close>. The external process is a function from the text on its
  standard input to the decoded text of its standard output. The result is the set
  \<open>accepted\<close> together with the inputs the process was run on, in order, so that a run
  that never starts it is told from one that does.
\<close>

definition result_lines_of :: "string list \<Rightarrow> string list" where
  "result_lines_of out =
     map strip (filter (\<lambda>line. strip line \<noteq> [] \<and> \<not> startswith line ''@'') out)"

fun accept_loop :: "string list \<Rightarrow> string list \<Rightarrow> nat list \<Rightarrow> string set \<Rightarrow> string set" where
  "accept_loop words result_lines [] accepted = accepted"
| "accept_loop words result_lines (i # is) accepted =
     accept_loop words result_lines is
       (if startswith (result_lines ! i) ''*'' then insert (words ! i) accepted else accepted)"

definition hunspell_filter_valid ::
  "(string \<Rightarrow> string) \<Rightarrow> string list \<Rightarrow> string set \<times> string list" where
  "hunspell_filter_valid oracle words =
     (if words = [] then ({}, [])
      else
        let inp = join_newline words @ [CHR 0x0A];
            out = splitlines (oracle inp);
            result_lines = result_lines_of out;
            n = min (length words) (length result_lines)
        in (accept_loop words result_lines [0..<n] {}, [inp]))"

text \<open>The loop of \<open>solve\<close> that fills \<open>candidates\<close> from \<open>base_words\<close>.\<close>

fun prefilter ::
  "string \<Rightarrow> char set \<Rightarrow> int \<Rightarrow> bool \<Rightarrow> string set \<Rightarrow> string list \<Rightarrow> string list" where
  "prefilter mandatory allowed_set min_len enable_reasonable_filter blacklist [] = []"
| "prefilter mandatory allowed_set min_len enable_reasonable_filter blacklist (w # ws) =
     (if w \<in> blacklist then
        prefilter mandatory allowed_set min_len enable_reasonable_filter blacklist ws
      else if \<not> str_in mandatory w then
        prefilter mandatory allowed_set min_len enable_reasonable_filter blacklist ws
      else if set w - allowed_set \<noteq> {} then
        prefilter mandatory allowed_set min_len enable_reasonable_filter blacklist ws
      else if enable_reasonable_filter \<and> \<not> looks_reasonable w min_len then
        prefilter mandatory allowed_set min_len enable_reasonable_filter blacklist ws
      else if \<not> enable_reasonable_filter \<and> int (length w) < min_len then
        prefilter mandatory allowed_set min_len enable_reasonable_filter blacklist ws
      else w # prefilter mandatory allowed_set min_len enable_reasonable_filter blacklist ws)"

text \<open>
  \<open>solve\<close> returns nothing and prints a report; the model returns what the report is
  printed from: the candidates, the inputs the oracle was run on, the valid words, the
  pangrams, the longest words with their length when there is a valid word, and the
  first thirty valid words. \<open>sys.exit\<close> with a message is the error \<open>SystemExit\<close>.
\<close>

record report =
  rep_candidates :: "string list"
  rep_oracle_inputs :: "string list"
  rep_valid :: "string list"
  rep_pangrams :: "string list"
  rep_longest :: "(nat \<times> string list) option"
  rep_top :: "string list"

definition solve ::
  "(string \<Rightarrow> string) \<Rightarrow> string \<Rightarrow> string \<Rightarrow> string list \<Rightarrow> int \<Rightarrow> bool \<Rightarrow> string set
     \<Rightarrow> error + report" where
  "solve oracle allowed0 mandatory0 base_words min_len enable_reasonable_filter blacklist =
     (let allowed = strip (lower allowed0);
          mandatory = strip (lower mandatory0)
      in
      if length allowed \<noteq> 7 \<or> card (set allowed) \<noteq> 7 \<or> \<not> ASCII_RE_fullmatch allowed then
        Inl (SystemExit ''ERROR: allowed must be exactly 7 distinct letters (a-z)'')
      else if length mandatory \<noteq> 1 \<or> \<not> ASCII_RE_fullmatch mandatory then
        Inl (SystemExit ''ERROR: mandatory must be exactly one a-z letter'')
      else if \<not> str_in mandatory allowed then
        Inl (SystemExit ''ERROR: mandatory letter must be among the allowed letters'')
      else
        let allowed_set = set allowed;
            allowed_counter = Counter allowed;
            candidates =
              prefilter mandatory allowed_set min_len enable_reasonable_filter blacklist base_words;
            (accepted, inputs) = hunspell_filter_valid oracle candidates;
            valid0 = filter (\<lambda>w. w \<in> accepted) candidates;
            valid = py_sorted_key valid_key (set valid0);
            pangrams0 = filter (\<lambda>w. length w = 7 \<and> Counter w = allowed_counter) valid;
            pangrams = py_sorted (set pangrams0);
            longest =
              (case valid of
                 [] \<Rightarrow> None
               | v # _ \<Rightarrow> Some (length v, filter (\<lambda>w. length w = length v) valid))
        in Inr \<lparr> rep_candidates = candidates, rep_oracle_inputs = inputs, rep_valid = valid,
                 rep_pangrams = pangrams, rep_longest = longest, rep_top = take 30 valid \<rparr>)"

section \<open>The properties as the specification words them\<close>

text \<open>
  The specification's Puzzle Constraints: \<open>allowed\<close> is seven distinct letters \<open>a-z\<close>,
  \<open>mandatory\<close> is one letter \<open>a-z\<close> and occurs in \<open>allowed\<close>.
\<close>

definition valid_constraints :: "string \<Rightarrow> string \<Rightarrow> bool" where
  "valid_constraints allowed mandatory =
     (length allowed = 7 \<and> distinct allowed \<and> list_all is_az allowed \<and>
      length mandatory = 1 \<and> list_all is_az mandatory \<and> list_all (\<lambda>c. c \<in> set allowed) mandatory)"

text \<open>The order of \<open>valid_words\<close>: longer words first, words of one length alphabetically.\<close>

definition longer_then_alpha :: "string \<Rightarrow> string \<Rightarrow> bool" where
  "longer_then_alpha x y = (length y < length x \<or> (length x = length y \<and> x < y))"

text \<open>A character that occurs three times in a row in \<open>w\<close>, starting at position \<open>i\<close>.\<close>

definition run3_at :: "string \<Rightarrow> nat \<Rightarrow> bool" where
  "run3_at w i = (i + 2 < length w \<and> w ! (i + 1) = w ! i \<and> w ! (i + 2) = w ! i)"

text \<open>A word of even length, at most 8, that is its first half twice.\<close>

definition doubled_short :: "string \<Rightarrow> bool" where
  "doubled_short w =
     (even (length w) \<and> length w \<le> 8 \<and> w = take (length w div 2) w @ take (length w div 2) w)"

text \<open>
  The result lines as claim C7 words them, "the stripped output lines that are non-empty
  and do not begin with \<open>@\<close>", in its two readings: both tests made on the stripped line,
  or both made on the line as it stands. Word \<open>i\<close> is accepted when result line \<open>i\<close>
  exists and begins with \<open>*\<close>.
\<close>

definition claimed_result_lines :: "string \<Rightarrow> string list" where
  "claimed_result_lines stdout =
     filter (\<lambda>line. line \<noteq> [] \<and> \<not> startswith line ''@'') (map strip (splitlines stdout))"

definition claimed_result_lines_unstripped :: "string \<Rightarrow> string list" where
  "claimed_result_lines_unstripped stdout =
     map strip (filter (\<lambda>line. line \<noteq> [] \<and> \<not> startswith line ''@'') (splitlines stdout))"

definition claimed_accepted :: "string list \<Rightarrow> string list \<Rightarrow> string set" where
  "claimed_accepted words rl =
     set (map (\<lambda>i. words ! i)
       (filter (\<lambda>i. startswith (rl ! i) ''*'') [0..<min (length words) (length rl)]))"

text \<open>
  An oracle that answers every input with a line of two spaces, an indented header line
  and two accepting lines.
\<close>

definition indented_header_oracle :: "string \<Rightarrow> string" where
  "indented_header_oracle inp =
     [CHR '' '', CHR '' '', CHR 0x0A, CHR '' '', CHR ''@'', CHR ''x'', CHR 0x0A,
      CHR ''*'', CHR 0x0A, CHR ''*'', CHR 0x0A]"

text \<open>An oracle that stops after its header and one result line, whatever it is sent.\<close>

definition short_oracle :: "string \<Rightarrow> string" where
  "short_oracle inp = ''@(#) International Ispell'' @ [CHR 0x0A] @ ''*'' @ [CHR 0x0A]"

section \<open>Facts about the string operations\<close>

lemma cp_lower_char:
  "cp (lower_char c) =
     (if (65 \<le> cp c \<and> cp c \<le> 90) \<or> (192 \<le> cp c \<and> cp c \<le> 214) \<or> (216 \<le> cp c \<and> cp c \<le> 222)
      then cp c + 32 else cp c)"
  by (auto simp: lower_char_def cp_def Let_def)

lemma lower_char_idem: "lower_char (lower_char c) = lower_char c"
proof -
  have "cp (lower_char (lower_char c)) = cp (lower_char c)"
    by (simp add: cp_lower_char)
  then show ?thesis by (simp add: cp_def)
qed

lemma isspace_lower_char: "isspace (lower_char c) = isspace c"
  by (simp add: isspace_def Let_def cp_lower_char)

lemma is_az_lower_char: "is_az c \<Longrightarrow> lower_char c = c"
  by (simp add: is_az_def lower_char_def Let_def)

lemma is_az_not_space: "is_az c \<Longrightarrow> \<not> isspace c"
  by (simp add: is_az_def isspace_def Let_def)

lemma isdigit_char_not_az: "isdigit_char c \<Longrightarrow> \<not> is_az c"
  by (auto simp add: is_az_def isdigit_char_def Let_def)

lemma isdigit_char_lower: "isdigit_char c \<Longrightarrow> lower_char c = c"
  by (auto simp add: lower_char_def isdigit_char_def Let_def)

lemma lower_idem: "lower (lower s) = lower s"
  by (simp add: lower_def lower_char_idem)

lemma dropWhile_isspace_lower: "dropWhile isspace (lower s) = lower (dropWhile isspace s)"
  by (induction s) (simp_all add: lower_def isspace_lower_char)

lemma lstrip_lower: "lstrip (lower s) = lower (lstrip s)"
  by (simp add: lstrip_def dropWhile_isspace_lower)

lemma rstrip_lower: "rstrip (lower s) = lower (rstrip s)"
proof -
  have "rev (lower s) = lower (rev s)" by (simp add: lower_def rev_map)
  then show ?thesis
    by (simp add: rstrip_def dropWhile_isspace_lower) (simp add: lower_def rev_map)
qed

lemma strip_lower: "strip (lower s) = lower (strip s)"
  by (simp add: strip_def lstrip_lower rstrip_lower)

lemma rstrip_Cons:
  "rstrip (x # xs) = (if rstrip xs = [] then (if isspace x then [] else [x]) else x # rstrip xs)"
  by (auto simp: rstrip_def dropWhile_append)

lemma lstrip_rstrip_head: "\<not> isspace x \<Longrightarrow> lstrip (rstrip (x # xs)) = rstrip (x # xs)"
  by (simp add: rstrip_Cons lstrip_def)

lemma rstrip_idem: "rstrip (rstrip s) = rstrip s"
  by (simp add: rstrip_def)

lemma strip_Nil: "strip [] = []"
  by (simp add: strip_def lstrip_def rstrip_def)

lemma strip_idem: "strip (strip s) = strip s"
proof (cases "lstrip s")
  case Nil
  then have "strip s = []" by (simp add: strip_def rstrip_def)
  then show ?thesis by (simp add: strip_Nil)
next
  case (Cons x xs)
  then have "\<not> isspace x"
    using hd_dropWhile [of isspace s] by (simp add: lstrip_def)
  then have "lstrip (rstrip (x # xs)) = rstrip (x # xs)"
    by (rule lstrip_rstrip_head)
  with Cons show ?thesis by (simp add: strip_def rstrip_idem)
qed

lemma dropWhile_none: "\<forall>c\<in>set s. \<not> P c \<Longrightarrow> dropWhile P s = s"
  by (cases s) simp_all

lemma strip_no_space:
  assumes "\<forall>c\<in>set s. \<not> isspace c"
  shows "strip s = s"
proof -
  have "dropWhile isspace s = s"
    using assms by (rule dropWhile_none)
  moreover have "\<forall>c\<in>set (rev s). \<not> isspace c"
    using assms by simp
  then have "dropWhile isspace (rev s) = rev s"
    by (rule dropWhile_none)
  ultimately show ?thesis by (simp add: strip_def lstrip_def rstrip_def)
qed

lemma str_in_single: "str_in [c] w \<longleftrightarrow> c \<in> set w"
  by (induction w) (auto simp: startswith_def)

text \<open>Normalising a constraint twice is normalising it once.\<close>

lemma normalise_idem: "strip (lower (strip (lower s))) = strip (lower s)"
  by (simp add: strip_lower lower_idem strip_idem)

text \<open>A string of letters \<open>a-z\<close> is its own normal form.\<close>

lemma normalise_az: "list_all is_az s \<Longrightarrow> strip (lower s) = s"
proof -
  assume a: "list_all is_az s"
  then have "lower s = s"
    by (simp add: lower_def list_all_iff is_az_lower_char map_idI)
  moreover from a have "\<forall>c\<in>set s. \<not> isspace c"
    by (simp add: list_all_iff is_az_not_space)
  ultimately show ?thesis by (simp add: strip_no_space)
qed

section \<open>Facts about sorting and the loops of the solver\<close>

lemma finite_sorted_key_set: "set (py_sorted_key k (set xs)) = set xs"
  by (simp add: py_sorted_key_def)

lemma distinct_py_sorted_key: "distinct (py_sorted_key k (set xs))"
  by (simp add: py_sorted_key_def)

lemma sorted_py_sorted_key: "sorted (map k (py_sorted_key k S))"
  by (simp add: py_sorted_key_def)

lemma py_sorted_key_any_order:
  assumes "inj_on k (set xs)" and "distinct xs"
  shows "sort_key k xs = py_sorted_key k (set xs)"
proof -
  let ?a = "sort_key k xs" and ?b = "py_sorted_key k (set xs)"
  have "inj_on k (set ?a \<union> set ?b)"
    using assms(1) by (simp add: finite_sorted_key_set)
  moreover have "map k ?a = map k ?b"
  proof (rule sorted_distinct_set_unique)
    show "sorted (map k ?a)" by simp
    show "sorted (map k ?b)" by (rule sorted_py_sorted_key)
    show "distinct (map k ?a)" using assms by (simp add: distinct_map)
    show "distinct (map k ?b)"
      using assms(1) by (simp add: distinct_map distinct_py_sorted_key finite_sorted_key_set)
    show "set (map k ?a) = set (map k ?b)" by (simp add: finite_sorted_key_set)
  qed
  ultimately show ?thesis by (rule inj_on_map_eq_map [THEN iffD1])
qed

lemma inj_valid_key: "inj_on valid_key A"
  by (simp add: inj_on_def valid_key_def)

lemma valid_key_le: "valid_key x \<le> valid_key y \<longleftrightarrow> longer_then_alpha x y \<or> x = y"
  by (auto simp: valid_key_def longer_then_alpha_def)

lemma sorted_valid_key:
  "sorted (map valid_key xs) \<Longrightarrow> distinct xs \<Longrightarrow> sorted_wrt longer_then_alpha xs"
  by (induction xs) (auto simp: valid_key_le)

lemma sorted_wrt_valid_words: "sorted_wrt longer_then_alpha (py_sorted_key valid_key (set xs))"
  by (rule sorted_valid_key [OF sorted_py_sorted_key distinct_py_sorted_key])

lemma sorted_valid_key_head:
  "sorted (map valid_key (v # vs)) \<Longrightarrow> w \<in> set vs \<Longrightarrow> length w \<le> length v"
  by (auto simp: valid_key_def)

lemma max_len_head:
  assumes "sorted (map valid_key (v # vs))"
  shows "Max (length ` set (v # vs)) = length v"
proof (rule Max_eqI)
  show "finite (length ` set (v # vs))" by simp
  show "length v \<in> length ` set (v # vs)" by simp
  fix n assume "n \<in> length ` set (v # vs)"
  then show "n \<le> length v"
    using sorted_valid_key_head [OF assms] by auto
qed

lemma scan_candidates_eq:
  "scan_candidates mandatory A C ws (valid, pangrams) =
     (valid @ filter (\<lambda>w. ASCII_RE_fullmatch w \<and> str_in mandatory w \<and> set w \<subseteq> A)
                (map (\<lambda>w0. lower (strip w0)) ws),
      pangrams @ filter (\<lambda>w. length w = 7 \<and> Counter w = C)
        (filter (\<lambda>w. ASCII_RE_fullmatch w \<and> str_in mandatory w \<and> set w \<subseteq> A)
                (map (\<lambda>w0. lower (strip w0)) ws)))"
proof (induction ws arbitrary: valid pangrams)
  case Nil
  show ?case by simp
next
  case (Cons w0 ws)
  show ?case
    by (simp add: Cons.IH Let_def ASCII_RE_fullmatch_def)
qed

lemma valid_constraints_checks:
  assumes "valid_constraints allowed [m]"
  shows "strip (lower allowed) = allowed" and "strip (lower [m]) = [m]"
    and "length allowed = 7" and "card (set allowed) = 7" and "ASCII_RE_fullmatch allowed"
    and "ASCII_RE_fullmatch [m]" and "str_in [m] allowed"
proof -
  from assms have a: "list_all is_az allowed" and l: "length allowed = 7"
    and d: "distinct allowed" and m: "is_az m" and i: "m \<in> set allowed"
    by (simp_all add: valid_constraints_def)
  show "strip (lower allowed) = allowed" using a by (rule normalise_az)
  show "strip (lower [m]) = [m]" using m by (simp add: normalise_az)
  show "length allowed = 7" by (rule l)
  show "card (set allowed) = 7" using d l by (simp add: distinct_card)
  show "ASCII_RE_fullmatch allowed" using a l by (auto simp: ASCII_RE_fullmatch_def)
  show "ASCII_RE_fullmatch [m]" using m by (simp add: ASCII_RE_fullmatch_def)
  show "str_in [m] allowed" using i by (simp add: str_in_single)
qed

lemma solve_candidates_Inr:
  assumes "valid_constraints allowed [m]"
  shows "solve_candidates allowed [m] candidates =
    (let V = filter (\<lambda>w. ASCII_RE_fullmatch w \<and> m \<in> set w \<and> set w \<subseteq> set allowed)
               (map (\<lambda>w0. lower (strip w0)) candidates);
         valid = py_sorted_key valid_key (set V);
         pangrams = py_sorted (set (filter (\<lambda>w. length w = 7 \<and> Counter w = Counter allowed) V));
         n = (case valid of [] \<Rightarrow> 0 | v # _ \<Rightarrow> length v)
     in Inr \<lparr> valid_words = valid, pangrams_7_exact = pangrams,
              longest_words = filter (\<lambda>w. length w = n) valid, max_len = n \<rparr>)"
  unfolding solve_candidates_def valid_constraints_checks(1,2) [OF assms] Let_def
  using valid_constraints_checks(3-7) [OF assms]
  by (simp add: scan_candidates_eq str_in_single)

lemma set_py_sorted: "set (py_sorted (set xs)) = set xs"
  by (simp add: py_sorted_def)

lemma sorted_py_sorted: "sorted (py_sorted S)"
  by (simp add: py_sorted_def)

lemma distinct_py_sorted: "distinct (py_sorted S)"
  by (simp add: py_sorted_def)

lemma Counter_eq_iff: "Counter w = Counter a \<longleftrightarrow> (\<forall>c. count_list w c = count_list a c)"
  by (simp add: Counter_def multiset_eq_iff count_mset)

lemma Counter_eq_length: "Counter w = Counter a \<Longrightarrow> length w = length a"
  by (metis Counter_def size_mset)

lemma constraint_checks_iff:
  "length a = 7 \<and> card (set a) = 7 \<and> ASCII_RE_fullmatch a \<and>
   length mm = 1 \<and> ASCII_RE_fullmatch mm \<and> str_in mm a \<longleftrightarrow> valid_constraints a mm"
proof (cases "length mm = 1")
  case True
  then obtain c where mm: "mm = [c]"
    by (cases mm) simp_all
  have "length a = 7 \<Longrightarrow> card (set a) = 7 \<longleftrightarrow> distinct a"
    using card_distinct [of a] distinct_card [of a] by auto
  then show ?thesis
    unfolding mm by (auto simp: valid_constraints_def ASCII_RE_fullmatch_def str_in_single)
next
  case False
  then show ?thesis by (simp add: valid_constraints_def)
qed

section \<open>The solver: \<open>solve_candidates\<close>\<close>

text \<open>
  Claim C1. For valid constraints (seven distinct letters \<open>a-z\<close>, a mandatory letter \<open>m\<close>
  among them) and every list of candidates, \<open>solve_candidates\<close> returns a result whose
  \<open>valid_words\<close> hold exactly the candidates, stripped and lowercased, that are not
  empty, are made of \<open>a-z\<close> only, contain \<open>m\<close> and use allowed letters only; no word
  occurs twice, and the list runs from longer to shorter words, alphabetically within
  one length.
\<close>

theorem solve_candidates_valid_words:
  assumes "valid_constraints allowed [m]"
  shows "\<exists>r. solve_candidates allowed [m] candidates = Inr r \<and>
     set (valid_words r) =
       {w. (\<exists>c\<in>set candidates. w = lower (strip c)) \<and> w \<noteq> [] \<and> list_all is_az w \<and>
           m \<in> set w \<and> set w \<subseteq> set allowed} \<and>
     distinct (valid_words r) \<and> sorted_wrt longer_then_alpha (valid_words r)"
proof -
  let ?V = "filter (\<lambda>w. ASCII_RE_fullmatch w \<and> m \<in> set w \<and> set w \<subseteq> set allowed)
               (map (\<lambda>w0. lower (strip w0)) candidates)"
  let ?valid = "py_sorted_key valid_key (set ?V)"
  obtain r where r: "solve_candidates allowed [m] candidates = Inr r"
    and v: "valid_words r = ?valid"
    using solve_candidates_Inr [OF assms, of candidates] by (simp add: Let_def)
  have "set ?valid = {w. (\<exists>c\<in>set candidates. w = lower (strip c)) \<and> w \<noteq> [] \<and> list_all is_az w \<and>
           m \<in> set w \<and> set w \<subseteq> set allowed}"
    unfolding finite_sorted_key_set by (auto simp: ASCII_RE_fullmatch_def)
  moreover have "distinct ?valid" by (rule distinct_py_sorted_key)
  moreover have "sorted_wrt longer_then_alpha ?valid" by (rule sorted_wrt_valid_words)
  ultimately show ?thesis using r v by simp
qed

theorem solve_candidates_valid_words_witness:
  "valid_constraints ''aelnrst'' ''e'' \<and>
   (\<exists>r. solve_candidates ''aelnrst'' ''e'' [''rennen'', ''TEE '', ''falsch'', ''rennen''] = Inr r \<and>
     set (valid_words r) =
       {w. (\<exists>c\<in>set [''rennen'', ''TEE '', ''falsch'', ''rennen'']. w = lower (strip c)) \<and> w \<noteq> [] \<and>
           list_all is_az w \<and> CHR ''e'' \<in> set w \<and> set w \<subseteq> set ''aelnrst''} \<and>
     distinct (valid_words r) \<and> sorted_wrt longer_then_alpha (valid_words r))"
proof -
  have h: "valid_constraints ''aelnrst'' ''e''" by code_simp
  from h solve_candidates_valid_words [OF h, of "[''rennen'', ''TEE '', ''falsch'', ''rennen'']"]
  show ?thesis by (rule conjI)
qed

text \<open>
  Claim C2. For valid constraints, \<open>pangrams_7_exact\<close> holds exactly the valid words of
  length 7 in which every letter occurs as often as in \<open>allowed\<close>, that is the valid words
  that are permutations of \<open>allowed\<close>, in ascending order without repetition. With
  \<open>abcdefg\<close> and \<open>a\<close>, the candidates \<open>gfedcba\<close>, \<open>aaaaaaa\<close>, \<open>abcdefga\<close> give the one
  pangram \<open>gfedcba\<close>.
\<close>

theorem solve_candidates_pangrams:
  assumes "valid_constraints allowed [m]"
  shows "(\<exists>r. solve_candidates allowed [m] candidates = Inr r \<and>
     set (pangrams_7_exact r) =
       {w \<in> set (valid_words r). length w = 7 \<and> (\<forall>c. count_list w c = count_list allowed c)} \<and>
     set (pangrams_7_exact r) = {w \<in> set (valid_words r). mset w = mset allowed} \<and>
     sorted (pangrams_7_exact r) \<and> distinct (pangrams_7_exact r)) \<and>
   solve_candidates ''abcdefg'' ''a'' [''gfedcba'', ''aaaaaaa'', ''abcdefga''] =
     Inr \<lparr> valid_words = [''abcdefga'', ''aaaaaaa'', ''gfedcba''],
            pangrams_7_exact = [''gfedcba''], longest_words = [''abcdefga''], max_len = 8 \<rparr>"
proof -
  have scenario: "solve_candidates ''abcdefg'' ''a'' [''gfedcba'', ''aaaaaaa'', ''abcdefga''] =
       Inr \<lparr> valid_words = [''abcdefga'', ''aaaaaaa'', ''gfedcba''],
              pangrams_7_exact = [''gfedcba''], longest_words = [''abcdefga''], max_len = 8 \<rparr>"
    by code_simp
  let ?V = "filter (\<lambda>w. ASCII_RE_fullmatch w \<and> m \<in> set w \<and> set w \<subseteq> set allowed)
               (map (\<lambda>w0. lower (strip w0)) candidates)"
  let ?P = "py_sorted (set (filter (\<lambda>w. length w = 7 \<and> Counter w = Counter allowed) ?V))"
  obtain r where r: "solve_candidates allowed [m] candidates = Inr r"
    and v: "valid_words r = py_sorted_key valid_key (set ?V)"
    and p: "pangrams_7_exact r = ?P"
    using solve_candidates_Inr [OF assms, of candidates] by (simp add: Let_def)
  have len: "length allowed = 7"
    using assms by (simp add: valid_constraints_def)
  have sv: "set (valid_words r) = set ?V"
    unfolding v by (rule finite_sorted_key_set)
  have "set ?P = {w \<in> set ?V. length w = 7 \<and> Counter w = Counter allowed}"
    unfolding set_py_sorted by auto
  then have 1: "set (pangrams_7_exact r) =
      {w \<in> set (valid_words r). length w = 7 \<and> Counter w = Counter allowed}"
    by (simp only: p sv)
  have 2: "length w = 7 \<and> Counter w = Counter allowed \<longleftrightarrow> mset w = mset allowed" for w
    using len Counter_eq_length [of w allowed] by (auto simp: Counter_def)
  have "set (pangrams_7_exact r) =
       {w \<in> set (valid_words r). length w = 7 \<and> (\<forall>c. count_list w c = count_list allowed c)}"
    unfolding 1 by (simp add: Counter_eq_iff)
  moreover have "set (pangrams_7_exact r) = {w \<in> set (valid_words r). mset w = mset allowed}"
    unfolding 1 by (simp only: 2)
  moreover have "sorted (pangrams_7_exact r)" unfolding p by (rule sorted_py_sorted)
  moreover have "distinct (pangrams_7_exact r)" unfolding p by (rule distinct_py_sorted)
  ultimately have "\<exists>r. solve_candidates allowed [m] candidates = Inr r \<and>
     set (pangrams_7_exact r) =
       {w \<in> set (valid_words r). length w = 7 \<and> (\<forall>c. count_list w c = count_list allowed c)} \<and>
     set (pangrams_7_exact r) = {w \<in> set (valid_words r). mset w = mset allowed} \<and>
     sorted (pangrams_7_exact r) \<and> distinct (pangrams_7_exact r)"
    using r by blast
  then show ?thesis using scenario by (rule conjI)
qed


theorem solve_candidates_pangrams_witness:
  "valid_constraints ''abcdefg'' ''a'' \<and>
   (\<exists>r. solve_candidates ''abcdefg'' ''a'' [''gfedcba'', ''aaaaaaa'', ''abcdefga''] = Inr r \<and>
     set (pangrams_7_exact r) =
       {w \<in> set (valid_words r). length w = 7 \<and> (\<forall>c. count_list w c = count_list ''abcdefg'' c)} \<and>
     set (pangrams_7_exact r) = {w \<in> set (valid_words r). mset w = mset ''abcdefg''} \<and>
     sorted (pangrams_7_exact r) \<and> distinct (pangrams_7_exact r))"
proof -
  have h: "valid_constraints ''abcdefg'' ''a''" by code_simp
  from h solve_candidates_pangrams [OF h, of "[''gfedcba'', ''aaaaaaa'', ''abcdefga'']", THEN conjunct1]
  show ?thesis by (rule conjI)
qed

text \<open>
  Claim C3. When the constraints, lowercased and stripped, are malformed (\<open>allowed\<close> not of
  length 7, or with a repeated letter, or not made of \<open>a-z\<close>; \<open>mandatory\<close> not one letter
  \<open>a-z\<close>, or not in \<open>allowed\<close>), \<open>solve_candidates\<close> raises a \<open>ValueError\<close> whose message
  is the same whatever the candidates are: no candidate is looked at and no result is
  computed. \<open>solve\<close> of \<open>main.py\<close> exits in the same way, whatever the base words and
  the oracle.
\<close>

theorem solve_candidates_malformed:
  assumes "\<not> valid_constraints (strip (lower allowed)) (strip (lower mandatory))"
  shows "(\<exists>msg. \<forall>candidates. solve_candidates allowed mandatory candidates = Inl (ValueError msg)) \<and>
         (\<exists>msg. \<forall>oracle base_words min_len enable_reasonable_filter blacklist.
            solve oracle allowed mandatory base_words min_len enable_reasonable_filter blacklist =
              Inl (SystemExit msg))"
proof -
  let ?a = "strip (lower allowed)" and ?m = "strip (lower mandatory)"
  let ?c1 = "length ?a \<noteq> 7 \<or> card (set ?a) \<noteq> 7 \<or> \<not> ASCII_RE_fullmatch ?a"
  let ?c2 = "length ?m \<noteq> 1 \<or> \<not> ASCII_RE_fullmatch ?m"
  let ?c3 = "\<not> str_in ?m ?a"
  from assms have "?c1 \<or> ?c2 \<or> ?c3"
    using constraint_checks_iff [of ?a ?m] by blast
  then consider (1) ?c1 | (2) "\<not> ?c1" ?c2 | (3) "\<not> ?c1" "\<not> ?c2" ?c3
    by blast
  then show ?thesis
  proof cases
    case 1
    then show ?thesis unfolding solve_candidates_def solve_def Let_def by (simp only: if_True if_False not_False_eq_True not_True_eq_False) blast
  next
    case 2
    then show ?thesis unfolding solve_candidates_def solve_def Let_def by (simp only: if_True if_False not_False_eq_True not_True_eq_False) blast
  next
    case 3
    then show ?thesis unfolding solve_candidates_def solve_def Let_def by (simp only: if_True if_False not_False_eq_True not_True_eq_False) blast
  qed
qed

theorem solve_candidates_malformed_witness:
  "\<not> valid_constraints (strip (lower ''abc'')) (strip (lower ''a'')) \<and>
   ((\<exists>msg. \<forall>candidates. solve_candidates ''abc'' ''a'' candidates = Inl (ValueError msg)) \<and>
    (\<exists>msg. \<forall>oracle base_words min_len enable_reasonable_filter blacklist.
       solve oracle ''abc'' ''a'' base_words min_len enable_reasonable_filter blacklist =
         Inl (SystemExit msg)))"
proof -
  have h: "\<not> valid_constraints (strip (lower ''abc'')) (strip (lower ''a''))" by code_simp
  from h solve_candidates_malformed [OF h]
  show ?thesis by (rule conjI)
qed

text \<open>
  Claim C4. For valid constraints, \<open>max_len\<close> is the greatest length of a word in
  \<open>valid_words\<close>, and 0 when there is none; \<open>longest_words\<close> is the list of the valid words
  of that length, empty when there is no valid word.
\<close>

theorem solve_candidates_longest:
  assumes "valid_constraints allowed [m]"
  shows "\<exists>r. solve_candidates allowed [m] candidates = Inr r \<and>
     max_len r = (if valid_words r = [] then 0 else Max (length ` set (valid_words r))) \<and>
     longest_words r = filter (\<lambda>w. length w = max_len r) (valid_words r) \<and>
     (valid_words r = [] \<longrightarrow> max_len r = 0 \<and> longest_words r = [])"
proof -
  let ?V = "filter (\<lambda>w. ASCII_RE_fullmatch w \<and> m \<in> set w \<and> set w \<subseteq> set allowed)
               (map (\<lambda>w0. lower (strip w0)) candidates)"
  let ?valid = "py_sorted_key valid_key (set ?V)"
  let ?n = "case ?valid of [] \<Rightarrow> 0 | v # _ \<Rightarrow> length v"
  obtain r where r: "solve_candidates allowed [m] candidates = Inr r"
    and v: "valid_words r = ?valid"
    and n: "max_len r = ?n"
    and l: "longest_words r = filter (\<lambda>w. length w = ?n) ?valid"
    using solve_candidates_Inr [OF assms, of candidates] by (simp add: Let_def)
  have "?n = (if ?valid = [] then 0 else Max (length ` set ?valid))"
  proof (cases ?valid)
    case Nil
    then show ?thesis by simp
  next
    case (Cons x xs)
    have "sorted (map valid_key ?valid)" by (rule sorted_py_sorted_key)
    then have "Max (length ` set (x # xs)) = length x"
      unfolding Cons by (rule max_len_head)
    then show ?thesis unfolding Cons by simp
  qed
  then have "max_len r = (if valid_words r = [] then 0 else Max (length ` set (valid_words r)))"
    by (simp only: v n)
  moreover have "longest_words r = filter (\<lambda>w. length w = max_len r) (valid_words r)"
    by (simp only: v n l)
  moreover have "valid_words r = [] \<longrightarrow> max_len r = 0 \<and> longest_words r = []"
    by (simp add: v n l)
  ultimately show ?thesis using r by blast
qed

theorem solve_candidates_longest_witness:
  "valid_constraints ''aelnrst'' ''e'' \<and>
   (\<exists>r. solve_candidates ''aelnrst'' ''e'' [''entstellen'', ''rennen'', ''stresstest''] = Inr r \<and>
     max_len r = (if valid_words r = [] then 0 else Max (length ` set (valid_words r))) \<and>
     longest_words r = filter (\<lambda>w. length w = max_len r) (valid_words r) \<and>
     (valid_words r = [] \<longrightarrow> max_len r = 0 \<and> longest_words r = []))"
proof -
  have h: "valid_constraints ''aelnrst'' ''e''" by code_simp
  from h solve_candidates_longest [OF h, of "[''entstellen'', ''rennen'', ''stresstest'']"]
  show ?thesis by (rule conjI)
qed

text \<open>
  Claim C9. For valid constraints and every list of candidates, \<open>solve_candidates\<close>
  returns a result and raises nothing; in the result no list holds a word twice, the
  pangrams and the longest words are valid words, and every longest word has length
  \<open>max_len\<close>. The model is a total function, so the call returns.
\<close>

theorem solve_candidates_well_formed:
  assumes "valid_constraints allowed [m]"
  shows "\<exists>r. solve_candidates allowed [m] candidates = Inr r \<and>
     distinct (valid_words r) \<and> distinct (pangrams_7_exact r) \<and> distinct (longest_words r) \<and>
     set (pangrams_7_exact r) \<subseteq> set (valid_words r) \<and>
     set (longest_words r) \<subseteq> set (valid_words r) \<and>
     (\<forall>w\<in>set (longest_words r). length w = max_len r)"
proof -
  let ?V = "filter (\<lambda>w. ASCII_RE_fullmatch w \<and> m \<in> set w \<and> set w \<subseteq> set allowed)
               (map (\<lambda>w0. lower (strip w0)) candidates)"
  let ?valid = "py_sorted_key valid_key (set ?V)"
  let ?P = "py_sorted (set (filter (\<lambda>w. length w = 7 \<and> Counter w = Counter allowed) ?V))"
  obtain r where r: "solve_candidates allowed [m] candidates = Inr r"
    and v: "valid_words r = ?valid"
    and p: "pangrams_7_exact r = ?P"
    and l: "longest_words r = filter (\<lambda>w. length w = max_len r) ?valid"
    using solve_candidates_Inr [OF assms, of candidates] by (simp add: Let_def)
  have dv: "distinct (valid_words r)" unfolding v by (rule distinct_py_sorted_key)
  have "distinct (pangrams_7_exact r)" unfolding p by (rule distinct_py_sorted)
  moreover have "distinct (longest_words r)" using dv unfolding l v by (rule distinct_filter)
  moreover have "set (pangrams_7_exact r) \<subseteq> set (valid_words r)"
    unfolding p v set_py_sorted finite_sorted_key_set by auto
  moreover have "set (longest_words r) \<subseteq> set (valid_words r)"
    unfolding l v by auto
  moreover have "\<forall>w\<in>set (longest_words r). length w = max_len r"
    unfolding l by simp
  ultimately show ?thesis using r dv by blast
qed

theorem solve_candidates_well_formed_witness:
  "valid_constraints ''aelnrst'' ''e'' \<and>
   (\<exists>r. solve_candidates ''aelnrst'' ''e'' [[], ''Rennen'', ''rennen'', '' r-e ''] = Inr r \<and>
     distinct (valid_words r) \<and> distinct (pangrams_7_exact r) \<and> distinct (longest_words r) \<and>
     set (pangrams_7_exact r) \<subseteq> set (valid_words r) \<and>
     set (longest_words r) \<subseteq> set (valid_words r) \<and>
     (\<forall>w\<in>set (longest_words r). length w = max_len r))"
proof -
  have h: "valid_constraints ''aelnrst'' ''e''" by code_simp
  from h solve_candidates_well_formed [OF h, of "[[], ''Rennen'', ''rennen'', '' r-e '']"]
  show ?thesis by (rule conjI)
qed

text \<open>
  Claim C10. \<open>solve_candidates\<close> normalises its constraints before it checks them: the
  call gives the same result, or the same error, as the call on the lowercased and
  stripped constraints, in either order of the two operations. So \<open>AELNRST\<close> with
  \<open> E \<close> is accepted and solved as \<open>aelnrst\<close> with \<open>e\<close>.
\<close>

theorem solve_candidates_normalises:
  "solve_candidates allowed mandatory candidates =
     solve_candidates (strip (lower allowed)) (strip (lower mandatory)) candidates \<and>
   solve_candidates allowed mandatory candidates =
     solve_candidates (lower (strip allowed)) (lower (strip mandatory)) candidates \<and>
   solve_candidates ''AELNRST'' '' E '' candidates = solve_candidates ''aelnrst'' ''e'' candidates \<and>
   (\<exists>r. solve_candidates ''AELNRST'' '' E '' candidates = Inr r)"
proof -
  have 1: "solve_candidates a mm candidates =
     solve_candidates (strip (lower a)) (strip (lower mm)) candidates" for a mm
    unfolding solve_candidates_def normalise_idem by (rule refl)
  have 2: "strip (lower ''AELNRST'') = ''aelnrst''" by code_simp
  have 3: "strip (lower '' E '') = ''e''" by code_simp
  have 4: "valid_constraints ''aelnrst'' ''e''" by code_simp
  have 5: "solve_candidates ''AELNRST'' '' E '' candidates = solve_candidates ''aelnrst'' ''e'' candidates"
    using 1 [of "''AELNRST''" "'' E ''"] by (simp only: 2 3)
  have 6: "\<exists>r. solve_candidates ''aelnrst'' ''e'' candidates = Inr r"
    using solve_candidates_Inr [OF 4, of candidates] by (simp add: Let_def)
  show ?thesis
    using 1 [of allowed mandatory] 5 6 by (simp add: strip_lower)
qed

theorem solve_candidates_normalises_witness:
  "solve_candidates ''AbCdEfG '' ''A'' [''Bad'', ''cafe''] =
     solve_candidates (strip (lower ''AbCdEfG '')) (strip (lower ''A'')) [''Bad'', ''cafe''] \<and>
   solve_candidates ''AbCdEfG '' ''A'' [''Bad'', ''cafe''] =
     solve_candidates (lower (strip ''AbCdEfG '')) (lower (strip ''A'')) [''Bad'', ''cafe''] \<and>
   solve_candidates ''AELNRST'' '' E '' [''Bad'', ''cafe''] =
     solve_candidates ''aelnrst'' ''e'' [''Bad'', ''cafe''] \<and>
   (\<exists>r. solve_candidates ''AELNRST'' '' E '' [''Bad'', ''cafe''] = Inr r)"
  by (rule solve_candidates_normalises)

section \<open>The word list: \<open>load_base_words\<close>\<close>

lemma set_dropWhile_keeps: "c \<in> set s \<Longrightarrow> \<not> P c \<Longrightarrow> c \<in> set (dropWhile P s)"
  by (induction s) auto

lemma set_strip_keeps:
  assumes "c \<in> set s" and "\<not> isspace c"
  shows "c \<in> set (strip s)"
proof -
  have "c \<in> set (rev (lstrip s))"
    using assms by (simp add: lstrip_def set_dropWhile_keeps)
  then have "c \<in> set (dropWhile isspace (rev (lstrip s)))"
    using assms(2) by (rule set_dropWhile_keeps)
  then show ?thesis by (simp add: strip_def rstrip_def)
qed

lemma slash_not_space: "\<not> isspace (CHR ''/'')"
  by (simp add: isspace_def cp_def)

lemma slash_not_digit: "\<not> isdigit_char (CHR ''/'')"
  by (simp add: isdigit_char_def cp_def)

text \<open>A count line yields no word: dropping it changes nothing.\<close>

lemma count_line_no_word:
  assumes "isdigit (strip line)"
  shows "\<not> ASCII_RE_fullmatch (lower (strip (split_slash_head line)))"
proof -
  from assms have ne: "strip line \<noteq> []" and dig: "\<forall>c\<in>set (strip line). isdigit_char c"
    by (simp_all add: isdigit_def list_all_iff)
  have "CHR ''/'' \<notin> set line"
    using set_strip_keeps [OF _ slash_not_space, of line] dig slash_not_digit by blast
  then have "split_slash_head line = line"
    by (simp add: split_slash_head_def takeWhile_eq_all_conv) metis
  moreover have "lower (strip line) = strip line"
    using dig by (simp add: lower_def map_idI isdigit_char_lower)
  moreover have "\<not> list_all is_az (strip line)"
    using ne dig isdigit_char_not_az by (cases "strip line") auto
  ultimately show ?thesis by (simp add: ASCII_RE_fullmatch_def)
qed

lemma add_words_eq:
  "add_words lines words =
     words \<union> {w. \<exists>line\<in>set lines. w = lower (strip (split_slash_head line)) \<and> ASCII_RE_fullmatch w}"
  by (induction lines arbitrary: words) (auto simp: Let_def)

lemma empty_no_word: "\<not> ASCII_RE_fullmatch (lower (strip (split_slash_head [])))"
  by (simp add: split_slash_head_def strip_Nil lower_def ASCII_RE_fullmatch_def)

lemma words_of_all_lines:
  "{w. \<exists>line\<in>set (all_lines file_lines). w = lower (strip (split_slash_head line)) \<and> ASCII_RE_fullmatch w} =
   {w. \<exists>line\<in>set file_lines. w = lower (strip (split_slash_head line)) \<and> ASCII_RE_fullmatch w}"
proof (cases file_lines)
  case Nil
  then show ?thesis
    using empty_no_word by (auto simp: all_lines_def Let_def)
next
  case (Cons first rest)
  then show ?thesis
    using count_line_no_word [of first] by (auto simp: all_lines_def Let_def)
qed

lemma load_base_words_set:
  "load_base_words file_lines = sorted_list_of_set
     {w. \<exists>line\<in>set file_lines. w = lower (strip (split_slash_head line)) \<and> ASCII_RE_fullmatch w}"
proof -
  have "add_words (all_lines file_lines) {} =
     {w. \<exists>line\<in>set (all_lines file_lines).
        w = lower (strip (split_slash_head line)) \<and> ASCII_RE_fullmatch w}"
    by (simp only: add_words_eq Un_empty_left)
  then show ?thesis
    by (simp only: load_base_words_def py_sorted_def words_of_all_lines)
qed

lemma finite_words: "finite {w. \<exists>line\<in>set lines. w = f line \<and> P w}"
proof -
  have "{w. \<exists>line\<in>set lines. w = f line \<and> P w} \<subseteq> f ` set lines" by auto
  then show ?thesis by (rule finite_subset) simp
qed

text \<open>
  Claim C8. For every sequence of file lines, \<open>load_base_words\<close> returns the sorted list,
  without repetition, of the tokens that are made of \<open>a-z\<close> only and not empty, where the
  token of a line is the part before its first \<open>/\<close>, stripped and lowercased. A token
  with any other character (a diacritic, a digit, a hyphen) is not in the list, and one
  stem under two flag suffixes is one entry, as in the test of the repository.
\<close>

theorem load_base_words_spec:
  "load_base_words file_lines = sorted_list_of_set
     {w. \<exists>line\<in>set file_lines.
        w = lower (strip (takeWhile (\<lambda>c. c \<noteq> CHR ''/'') line)) \<and> w \<noteq> [] \<and> list_all is_az w} \<and>
   set (load_base_words file_lines) =
     {w. \<exists>line\<in>set file_lines.
        w = lower (strip (takeWhile (\<lambda>c. c \<noteq> CHR ''/'') line)) \<and> w \<noteq> [] \<and> list_all is_az w} \<and>
   sorted (load_base_words file_lines) \<and> distinct (load_base_words file_lines) \<and>
   (\<forall>line\<in>set file_lines.
      \<not> list_all is_az (lower (strip (takeWhile (\<lambda>c. c \<noteq> CHR ''/'') line))) \<longrightarrow>
      lower (strip (takeWhile (\<lambda>c. c \<noteq> CHR ''/'') line)) \<notin> set (load_base_words file_lines)) \<and>
   load_base_words
     [''5'' @ [CHR 0x0A], ''entstellen/A'' @ [CHR 0x0A], ''entstellen/B'' @ [CHR 0x0A],
      ''stresstest'' @ [CHR 0x0A], ''r'' @ [CHR 0xF6] @ ''sten'' @ [CHR 0x0A],
      ''abc-def'' @ [CHR 0x0A], ''ab1'' @ [CHR 0x0A]] = [''entstellen'', ''stresstest'']"
proof -
  let ?W = "{w. \<exists>line\<in>set file_lines.
        w = lower (strip (takeWhile (\<lambda>c. c \<noteq> CHR ''/'') line)) \<and> w \<noteq> [] \<and> list_all is_az w}"
  have eq: "load_base_words file_lines = sorted_list_of_set ?W"
    using load_base_words_set [of file_lines]
    by (simp only: split_slash_head_def ASCII_RE_fullmatch_def)
  have fin: "finite ?W" by (rule finite_words)
  have s: "set (load_base_words file_lines) = ?W"
    unfolding eq using fin by simp
  have "sorted (load_base_words file_lines)" unfolding eq by simp
  moreover have "distinct (load_base_words file_lines)" unfolding eq by simp
  moreover have "\<forall>line\<in>set file_lines.
      \<not> list_all is_az (lower (strip (takeWhile (\<lambda>c. c \<noteq> CHR ''/'') line))) \<longrightarrow>
      lower (strip (takeWhile (\<lambda>c. c \<noteq> CHR ''/'') line)) \<notin> set (load_base_words file_lines)"
    unfolding s by simp
  moreover have "load_base_words
     [''5'' @ [CHR 0x0A], ''entstellen/A'' @ [CHR 0x0A], ''entstellen/B'' @ [CHR 0x0A],
      ''stresstest'' @ [CHR 0x0A], ''r'' @ [CHR 0xF6] @ ''sten'' @ [CHR 0x0A],
      ''abc-def'' @ [CHR 0x0A], ''ab1'' @ [CHR 0x0A]] = [''entstellen'', ''stresstest'']"
    by code_simp
  ultimately show ?thesis using eq s by blast
qed

theorem load_base_words_spec_witness:
  "\<not> list_all is_az (lower (strip (takeWhile (\<lambda>c. c \<noteq> CHR ''/'') ''a-b''))) \<and>
   lower (strip (takeWhile (\<lambda>c. c \<noteq> CHR ''/'') ''a-b'')) \<notin>
     set (load_base_words [''b/X'', '' a '', ''B'', ''a-b'']) \<and>
   load_base_words [''b/X'', '' a '', ''B'', ''a-b''] = [''a'', ''b'']"
proof -
  have 1: "\<not> list_all is_az (lower (strip (takeWhile (\<lambda>c. c \<noteq> CHR ''/'') ''a-b'')))"
    by code_simp
  have 2: "''a-b'' \<in> set [''b/X'', '' a '', ''B'', ''a-b'']" by simp
  have 3: "load_base_words [''b/X'', '' a '', ''B'', ''a-b''] = [''a'', ''b'']" by code_simp
  have "\<forall>line\<in>set [''b/X'', '' a '', ''B'', ''a-b''].
      \<not> list_all is_az (lower (strip (takeWhile (\<lambda>c. c \<noteq> CHR ''/'') line))) \<longrightarrow>
      lower (strip (takeWhile (\<lambda>c. c \<noteq> CHR ''/'') line)) \<notin>
        set (load_base_words [''b/X'', '' a '', ''B'', ''a-b''])"
    using load_base_words_spec [of "[''b/X'', '' a '', ''B'', ''a-b'']"] by (elim conjE)
  then have "lower (strip (takeWhile (\<lambda>c. c \<noteq> CHR ''/'') ''a-b'')) \<notin>
     set (load_base_words [''b/X'', '' a '', ''B'', ''a-b''])"
    using 1 2 by blast
  with 1 3 show ?thesis by blast
qed

section \<open>The prefilter and the oracle: \<open>solve\<close>, \<open>looks_reasonable\<close>, \<open>hunspell_filter_valid\<close>\<close>

lemma prefilter_eq:
  "prefilter mandatory allowed_set min_len enable blacklist ws =
     filter (\<lambda>w. w \<notin> blacklist \<and> str_in mandatory w \<and> set w \<subseteq> allowed_set \<and>
                 (if enable then looks_reasonable w min_len else min_len \<le> int (length w))) ws"
  by (induction ws) auto

lemma hunspell_inputs:
  "snd (hunspell_filter_valid oracle words) =
     (if words = [] then [] else [join_newline words @ [CHR 0x0A]])"
  by (simp add: hunspell_filter_valid_def Let_def)

lemma solve_Inr:
  assumes "valid_constraints allowed [m]"
  shows "\<exists>r. solve oracle allowed [m] base_words min_len enable blacklist = Inr r \<and>
     rep_candidates r = prefilter [m] (set allowed) min_len enable blacklist base_words \<and>
     rep_oracle_inputs r = snd (hunspell_filter_valid oracle (rep_candidates r))"
  unfolding solve_def valid_constraints_checks(1,2) [OF assms] Let_def
  using valid_constraints_checks(3-7) [OF assms]
  by (simp add: split_beta)

lemma solve_Inr_parts:
  assumes "solve oracle allowed mandatory base_words min_len enable blacklist = Inr r"
  shows "rep_candidates r =
           prefilter (strip (lower mandatory)) (set (strip (lower allowed))) min_len enable
             blacklist base_words"
    and "rep_oracle_inputs r = snd (hunspell_filter_valid oracle (rep_candidates r))"
  using assms by (auto simp: solve_def Let_def split_beta split: if_splits)

text \<open>
  Claim C5. For valid constraints and every list of base words, blacklist, minimum
  length and setting of the heuristic filter, \<open>solve\<close> gets past its checks and its
  candidates are the base words, in their order, that are not in the blacklist, contain
  the mandatory letter, use allowed letters only (however often), and pass
  \<open>looks_reasonable\<close> when the heuristic filter is on, or are at least \<open>min_len\<close> long
  when it is off: one of the two tests, never both.
\<close>

theorem solve_prefilter:
  assumes "valid_constraints allowed [m]"
  shows "\<exists>r. solve oracle allowed [m] base_words min_len enable_reasonable_filter blacklist = Inr r \<and>
     rep_candidates r =
       filter (\<lambda>w. w \<notin> blacklist \<and> m \<in> set w \<and> set w \<subseteq> set allowed \<and>
                   (if enable_reasonable_filter then looks_reasonable w min_len
                    else min_len \<le> int (length w))) base_words"
  using solve_Inr [OF assms, of "oracle" base_words min_len enable_reasonable_filter blacklist]
  by (auto simp: prefilter_eq str_in_single)

theorem solve_prefilter_witness:
  "valid_constraints ''aelnrst'' ''e'' \<and>
   (\<exists>r. solve short_oracle ''aelnrst'' ''e'' [''rennen'', ''teer'', ''nennnenn'', ''tee'', ''falsch'']
          4 False {''teer''} = Inr r \<and>
     rep_candidates r =
       filter (\<lambda>w. w \<notin> {''teer''} \<and> CHR ''e'' \<in> set w \<and> set w \<subseteq> set ''aelnrst'' \<and>
                   (if False then looks_reasonable w 4 else 4 \<le> int (length w)))
         [''rennen'', ''teer'', ''nennnenn'', ''tee'', ''falsch''])"
proof -
  have h: "valid_constraints ''aelnrst'' ''e''" by code_simp
  from h solve_prefilter [OF h, of short_oracle
      "[''rennen'', ''teer'', ''nennnenn'', ''tee'', ''falsch'']" 4 False "{''teer''}"]
  show ?thesis by (rule conjI)
qed

lemma ex_nat_split: "(\<exists>i. Q i) \<longleftrightarrow> Q 0 \<or> (\<exists>j. Q (Suc j))"
  by (metis not0_implies_Suc)

lemma triple_repeat_iff:
  "triple_repeat w \<longleftrightarrow> (\<exists>i. run3_at w i \<and> w ! i \<noteq> CHR 0x0A)"
proof (induction w rule: triple_repeat.induct)
  case (1 a b c cs)
  have "(\<exists>i. run3_at (a # b # c # cs) i \<and> (a # b # c # cs) ! i \<noteq> CHR 0x0A) \<longleftrightarrow>
        (a \<noteq> CHR 0x0A \<and> b = a \<and> c = a) \<or> (\<exists>j. run3_at (b # c # cs) j \<and> (b # c # cs) ! j \<noteq> CHR 0x0A)"
    by (subst ex_nat_split) (auto simp: run3_at_def)
  with 1 show ?case by simp
qed (simp_all add: run3_at_def)

lemma halves_iff:
  "take (length w div 2) w = drop (length w div 2) w \<longleftrightarrow>
     w = take (length w div 2) w @ take (length w div 2) w"
proof
  assume "take (length w div 2) w = drop (length w div 2) w"
  then show "w = take (length w div 2) w @ take (length w div 2) w"
    by (metis append_take_drop_id)
next
  assume a: "w = take (length w div 2) w @ take (length w div 2) w"
  have "drop (length w div 2) w = drop (length w div 2) (take (length w div 2) w @ take (length w div 2) w)"
    using a by simp
  also have "\<dots> = take (length w div 2) w"
  proof -
    have "length (take (length w div 2) w) = length w div 2" by simp
    then show ?thesis by (metis append_eq_conv_conj)
  qed
  finally show "take (length w div 2) w = drop (length w div 2) w" by simp
qed

lemma looks_reasonable_iff:
  "looks_reasonable w min_len \<longleftrightarrow>
     min_len \<le> int (length w) \<and> \<not> (\<exists>i. run3_at w i \<and> w ! i \<noteq> CHR 0x0A) \<and> \<not> doubled_short w"
  using halves_iff [of w]
  by (auto simp: looks_reasonable_def triple_repeat_iff doubled_short_def Let_def even_iff_mod_2_eq_zero)

lemma doubled8_rejected: "length h = 4 \<Longrightarrow> \<not> looks_reasonable (h @ h) min_len"
  by (simp add: looks_reasonable_iff doubled_short_def)

lemma run3_no_newline:
  assumes "CHR 0x0A \<notin> set w"
  shows "(\<exists>i. run3_at w i \<and> w ! i \<noteq> CHR 0x0A) \<longleftrightarrow> (\<exists>i. run3_at w i)"
proof -
  have "w ! i \<noteq> CHR 0x0A" if "run3_at w i" for i
  proof -
    from that have "i < length w" by (simp add: run3_at_def)
    then have "w ! i \<in> set w" by (rule nth_mem)
    with assms show ?thesis by metis
  qed
  then show ?thesis by blast
qed

text \<open>
  Claim C6. For every word \<open>w\<close>, a string without a newline as every word is, and every
  \<open>min_len\<close>, \<open>looks_reasonable w min_len\<close> holds exactly when \<open>w\<close> has at least \<open>min_len\<close>
  characters, no character occurs three or more times in a row in \<open>w\<close>, and \<open>w\<close> is not a
  word of even length at most 8 that is its first half twice. So a word of two equal
  halves of four letters is rejected, and when the heuristic filter is on it is no
  candidate of \<open>solve\<close>, whose only input to the oracle is made of the candidates.
\<close>

theorem looks_reasonable_spec:
  "(CHR 0x0A \<notin> set w \<longrightarrow>
      (looks_reasonable w min_len \<longleftrightarrow>
         min_len \<le> int (length w) \<and> \<not> (\<exists>i. run3_at w i) \<and> \<not> doubled_short w)) \<and>
   (length h = 4 \<longrightarrow>
      \<not> looks_reasonable (h @ h) min_len \<and>
      (\<forall>r. solve oracle allowed mandatory base_words min_len True blacklist = Inr r \<longrightarrow>
         h @ h \<notin> set (rep_candidates r) \<and>
         rep_oracle_inputs r =
           (if rep_candidates r = [] then [] else [join_newline (rep_candidates r) @ [CHR 0x0A]])))"
proof (intro conjI impI allI)
  assume "CHR 0x0A \<notin> set w"
  then have e: "(\<exists>i. run3_at w i \<and> w ! i \<noteq> CHR 0x0A) \<longleftrightarrow> (\<exists>i. run3_at w i)"
    by (rule run3_no_newline)
  show "looks_reasonable w min_len \<longleftrightarrow>
      min_len \<le> int (length w) \<and> \<not> (\<exists>i. run3_at w i) \<and> \<not> doubled_short w"
    using looks_reasonable_iff [of w min_len] unfolding e .
next
  assume "length h = 4"
  then show "\<not> looks_reasonable (h @ h) min_len" by (rule doubled8_rejected)
next
  fix r
  assume h: "length h = 4"
    and r: "solve oracle allowed mandatory base_words min_len True blacklist = Inr r"
  show "h @ h \<notin> set (rep_candidates r)"
    unfolding solve_Inr_parts(1) [OF r] prefilter_eq
    using doubled8_rejected [OF h] by simp
  show "rep_oracle_inputs r =
           (if rep_candidates r = [] then [] else [join_newline (rep_candidates r) @ [CHR 0x0A]])"
    unfolding solve_Inr_parts(2) [OF r] by (rule hunspell_inputs)
qed

theorem looks_reasonable_spec_witness:
  "CHR 0x0A \<notin> set ''rennen'' \<and> looks_reasonable ''rennen'' 4 \<and>
   4 \<le> int (length ''rennen'') \<and> \<not> (\<exists>i. run3_at ''rennen'' i) \<and> \<not> doubled_short ''rennen'' \<and>
   length ''nenn'' = 4 \<and> \<not> looks_reasonable (''nenn'' @ ''nenn'') 4 \<and>
   solve short_oracle ''aelnrst'' ''e'' [''nennnenn'', ''rennen''] 4 True {} =
     Inr \<lparr> rep_candidates = [''rennen''], rep_oracle_inputs = [''rennen'' @ [CHR 0x0A]],
            rep_valid = [''rennen''], rep_pangrams = [], rep_longest = Some (6, [''rennen'']),
            rep_top = [''rennen''] \<rparr> \<and>
   ''nenn'' @ ''nenn'' \<notin> set [''rennen'']"
proof -
  have n: "CHR 0x0A \<notin> set ''rennen''" by simp
  have p: "looks_reasonable ''rennen'' 4" by code_simp
  have l: "length ''nenn'' = 4" by simp
  have s: "solve short_oracle ''aelnrst'' ''e'' [''nennnenn'', ''rennen''] 4 True {} =
     Inr \<lparr> rep_candidates = [''rennen''], rep_oracle_inputs = [''rennen'' @ [CHR 0x0A]],
            rep_valid = [''rennen''], rep_pangrams = [], rep_longest = Some (6, [''rennen'']),
            rep_top = [''rennen''] \<rparr>"
    by code_simp
  note u = looks_reasonable_spec [of "''rennen''" 4 "''nenn''" short_oracle "''aelnrst''" "''e''"
      "[''nennnenn'', ''rennen'']" "{}"]
  have "4 \<le> int (length ''rennen'') \<and> \<not> (\<exists>i. run3_at ''rennen'' i) \<and> \<not> doubled_short ''rennen''"
    using u [THEN conjunct1, rule_format, OF n] p by (rule iffD1)
  moreover note t = u [THEN conjunct2, rule_format, OF l]
  have "\<not> looks_reasonable (''nenn'' @ ''nenn'') 4" using t by (rule conjunct1)
  moreover have "''nenn'' @ ''nenn'' \<notin> set [''rennen'']"
    using t [THEN conjunct2, rule_format, OF s] by simp
  ultimately show ?thesis using n p l s by blast
qed

lemma accept_loop_eq:
  "accept_loop words rl js accepted =
     accepted \<union> {words ! i | i. i \<in> set js \<and> startswith (rl ! i) ''*''}"
  by (induction js arbitrary: accepted) auto

text \<open>
  Claim C7, amended. Let the result lines be the stripped forms, in order, of those lines
  of the oracle's output that are not empty once stripped and that do not begin with
  \<open>@\<close> as they stand, before stripping. Then \<open>hunspell_filter_valid\<close> accepts exactly the
  words at the positions below both lengths whose result line begins with \<open>*\<close>. The
  accepted words lie in the prefix of the words that has a result line, hence among the
  words; a non-empty list is sent to the oracle once, as one text of lines; the empty
  list gives the empty set and the oracle is not run.
\<close>

theorem hunspell_filter_valid_spec:
  fixes "oracle" :: "string \<Rightarrow> string" and words :: "string list"
  defines "rl \<equiv> map strip (filter (\<lambda>line. strip line \<noteq> [] \<and> \<not> startswith line ''@'')
                   (splitlines (oracle (join_newline words @ [CHR 0x0A]))))"
  shows "fst (hunspell_filter_valid oracle words) =
           {words ! i | i. i < min (length words) (length rl) \<and> startswith (rl ! i) ''*''} \<and>
         fst (hunspell_filter_valid oracle words) \<subseteq> set (take (length rl) words) \<and>
         fst (hunspell_filter_valid oracle words) \<subseteq> set words \<and>
         snd (hunspell_filter_valid oracle words) =
           (if words = [] then [] else [join_newline words @ [CHR 0x0A]]) \<and>
         hunspell_filter_valid oracle [] = ({}, [])"
proof -
  have a: "fst (hunspell_filter_valid oracle words) =
           {words ! i | i. i < min (length words) (length rl) \<and> startswith (rl ! i) ''*''}"
    by (auto simp: hunspell_filter_valid_def Let_def accept_loop_eq result_lines_of_def rl_def)
  have b: "fst (hunspell_filter_valid oracle words) \<subseteq> set (take (length rl) words)"
    unfolding a
  proof
    fix x
    assume "x \<in> {words ! i | i. i < min (length words) (length rl) \<and> startswith (rl ! i) ''*''}"
    then obtain i where i: "i < length words" "i < length rl" "x = words ! i"
      by auto
    then have "take (length rl) words ! i = x" by simp
    moreover have "i < length (take (length rl) words)" using i by simp
    ultimately show "x \<in> set (take (length rl) words)" by (metis nth_mem)
  qed
  have c: "fst (hunspell_filter_valid oracle words) \<subseteq> set words"
    unfolding a by auto
  have d: "hunspell_filter_valid oracle [] = ({}, [])"
    by (simp add: hunspell_filter_valid_def)
  show ?thesis using a b c d hunspell_inputs [of "oracle" words] by blast
qed

theorem hunspell_filter_valid_spec_witness:
  "fst (hunspell_filter_valid short_oracle [''a'', ''b'']) \<subseteq>
     set (take (length (map strip (filter (\<lambda>line. strip line \<noteq> [] \<and> \<not> startswith line ''@'')
            (splitlines (short_oracle (join_newline [''a'', ''b''] @ [CHR 0x0A])))))) [''a'', ''b'']) \<and>
   hunspell_filter_valid short_oracle [''a'', ''b''] = ({''a''}, [''a'' @ [CHR 0x0A] @ ''b'' @ [CHR 0x0A]])"
proof -
  have "hunspell_filter_valid short_oracle [''a'', ''b''] =
      ({''a''}, [''a'' @ [CHR 0x0A] @ ''b'' @ [CHR 0x0A]])"
    by code_simp
  with hunspell_filter_valid_spec [of short_oracle "[''a'', ''b'']", THEN conjunct2, THEN conjunct1]
  show ?thesis by (rule conjI)
qed

text \<open>
  The claim as it was worded fails in both readings on an output that begins with a line
  of spaces and an indented header line. The program drops the line of spaces and keeps
  the indented header as result line 0, so it rejects the first word and accepts the
  second. With both tests on the stripped lines the header is dropped too and both words
  are accepted; with both tests on the lines as they stand the line of spaces is kept as
  an empty result line and no word is accepted.
\<close>

theorem hunspell_filter_valid_counterexample:
  "fst (hunspell_filter_valid indented_header_oracle [''a'', ''b'']) = {''b''} \<and>
   claimed_accepted [''a'', ''b'']
     (claimed_result_lines (indented_header_oracle (join_newline [''a'', ''b''] @ [CHR 0x0A]))) =
     {''a'', ''b''} \<and>
   claimed_accepted [''a'', ''b'']
     (claimed_result_lines_unstripped
        (indented_header_oracle (join_newline [''a'', ''b''] @ [CHR 0x0A]))) = {}"
  by code_simp

end
